theory Spec2Isabelle
  imports Main
begin

section \<open>Reverse-tunnel agent store, connected-proxy tracker and principal ids\<close>

text \<open>
  A shallow embedding of the two files of package \<open>reversetunnel\<close>: the agent store
  (\<open>agentStore\<close> with \<open>len\<close>, \<open>add\<close>, \<open>unsafeRemove\<close>, \<open>remove\<close>, \<open>poplen\<close>, \<open>last\<close>)
  and the connected-proxy tracker (\<open>ConnectedProxies\<close> with \<open>ProxyIDs\<close>,
  \<open>updateProxyIDs\<close>) together with \<open>getIDFromPrincipals\<close>.

  Every method of the two structs runs under the struct's mutex, so each call is one
  atomic step on the struct's fields; the model passes the fields explicitly and returns
  the updated struct next to the Go results.
\<close>

subsection \<open>The agent store\<close>

text \<open>
  \<open>*Agent\<close> is a pointer that the store only compares by identity (\<open>!=\<close>): a pointer is
  either \<open>nil\<close> or the address of an agent.
\<close>

datatype Agent_ptr = nil_Agent | Agent_at nat

text \<open>
  \<open>type agentStore struct { agents []*Agent; mu sync.RWMutex }\<close>. The slice is only
  read through \<open>len\<close>, indexing, re-slicing and \<open>append\<close>, none of which tells a nil
  slice from an empty one, so it is a list.
\<close>

record agentStore =
  agents :: "Agent_ptr list"

definition newAgentStore :: agentStore where
  "newAgentStore = \<lparr>agents = []\<rparr>"

definition len :: "agentStore \<Rightarrow> nat" where
  "len s = length (agents s)"

definition add :: "agentStore \<Rightarrow> Agent_ptr \<Rightarrow> agentStore" where
  "add s agent = s\<lparr>agents := agents s @ [agent]\<rparr>"

text \<open>
  The loop \<open>for i := range s.agents\<close> of \<open>unsafeRemove\<close>, started at index \<open>i\<close>: it
  skips the elements different from \<open>agent\<close>, and at the first equal one it stores
  \<open>append(s.agents[:i], s.agents[i+1:]...)\<close> and returns true; running off the end
  returns false with the slice untouched.
\<close>

function unsafeRemove_loop :: "Agent_ptr list \<Rightarrow> Agent_ptr \<Rightarrow> nat \<Rightarrow> Agent_ptr list \<times> bool" where
  "unsafeRemove_loop ags agent i =
     (if i < length ags then
        (if ags ! i \<noteq> agent then unsafeRemove_loop ags agent (Suc i)
         else (take i ags @ drop (Suc i) ags, True))
      else (ags, False))"
  by pat_completeness auto
termination
  by (relation "measure (\<lambda>(ags, agent, i). length ags - i)") auto

definition unsafeRemove :: "agentStore \<Rightarrow> Agent_ptr \<Rightarrow> agentStore \<times> bool" where
  "unsafeRemove s agent =
     (case unsafeRemove_loop (agents s) agent 0 of
        (ags, found) \<Rightarrow> (s\<lparr>agents := ags\<rparr>, found))"

definition remove :: "agentStore \<Rightarrow> Agent_ptr \<Rightarrow> agentStore \<times> bool" where
  "remove s agent = unsafeRemove s agent"

text \<open>
  \<open>poplen(l int)\<close>. The argument is a Go \<open>int\<close>; it is only compared, never computed
  with, so the model takes a mathematical integer. The result is the updated store, the
  returned pointer and the returned flag.
\<close>

definition poplen :: "agentStore \<Rightarrow> int \<Rightarrow> agentStore \<times> Agent_ptr \<times> bool" where
  "poplen s l =
     (if l < 0 \<or> length (agents s) = 0 then (s, nil_Agent, False)
      else if int (length (agents s)) \<le> l then (s, nil_Agent, False)
      else (s\<lparr>agents := drop 1 (agents s)\<rparr>, agents s ! 0, True))"

text \<open>
  \<open>last()\<close> takes the read lock and assigns nothing, so it is a function of the store
  alone. (The name \<open>last\<close> is the list function of HOL.)
\<close>

definition last_agent :: "agentStore \<Rightarrow> Agent_ptr \<times> bool" where
  "last_agent s =
     (if length (agents s) = 0 then (nil_Agent, False)
      else (agents s ! (length (agents s) - 1), True))"

subsection \<open>Principal identifier extraction\<close>

text \<open>
  \<open>strings.Split(s, sep)\<close> of the Go standard library for a separator of one byte, which
  is how the source calls it (\<open>"."\<close>): the loop of \<open>genSplit\<close> looks for the next
  separator with \<open>Index\<close>, emits the bytes before it, continues behind it, and emits the
  rest when no separator is left. A Go string is a byte sequence, as \<open>string\<close> is here.
\<close>

fun Index :: "string \<Rightarrow> char \<Rightarrow> nat option" where
  "Index [] sep = None"
| "Index (c # cs) sep = (if c = sep then Some 0 else map_option Suc (Index cs sep))"

function Split :: "string \<Rightarrow> char \<Rightarrow> string list" where
  "Split s sep =
     (case Index s sep of
        None \<Rightarrow> [s]
      | Some m \<Rightarrow> take m s # Split (drop (m + 1) s) sep)"
  by pat_completeness auto
termination
proof (relation "measure (\<lambda>(s, sep). length s)")
  show "wf (measure (\<lambda>(s, sep). length s))"
    by simp
next
  fix s :: string and sep m
  assume found: "Index s sep = Some m"
  have "Index s sep = Some m \<Longrightarrow> m < length s" for m
    by (induction s arbitrary: m) (auto split: if_splits)
  with found have "m < length s"
    by blast
  then show "((drop (m + 1) s, sep), (s, sep)) \<in> measure (\<lambda>(s, sep). length s)"
    by simp
qed

definition getIDFromPrincipals :: "string list \<Rightarrow> string \<times> bool" where
  "getIDFromPrincipals principals =
     (if length principals = 0 then ('''', False)
      else
        (let id = principals ! 0;
             split = Split id (CHR ''.'')
         in (if length split > 1 then split ! 0 else id, True)))"

subsection \<open>The connected-proxy tracker\<close>

text \<open>
  \<open>ids []string\<close> of \<open>ConnectedProxies\<close>. The tracker compares slices with
  \<open>cmp.Equal\<close> of go-cmp, which does tell a nil slice from an empty one, so the slice is
  \<open>None\<close> for nil and \<open>Some xs\<close> for a non-nil slice with the elements \<open>xs\<close>.
\<close>

type_synonym string_slice = "string list option"

text \<open>
  \<open>cmp.Equal\<close> on two \<open>[]string\<close> values without options, as go-cmp documents it: slices
  are equal if they are both nil, or both non-nil with equal elements at every index; an
  empty non-nil slice and a nil slice are not equal.
\<close>

fun cmp_Equal :: "string_slice \<Rightarrow> string_slice \<Rightarrow> bool" where
  "cmp_Equal None None = True"
| "cmp_Equal (Some xs) (Some ys) = (xs = ys)"
| "cmp_Equal _ _ = False"

text \<open>
  \<open>type ConnectedProxies struct { ids []string; change chan struct{}; mu sync.RWMutex }\<close>.
  \<open>NewConnectedProxies\<close> makes the channel and leaves \<open>ids\<close> at its zero value, the nil
  slice.
\<close>

record ConnectedProxies =
  ids :: string_slice

definition NewConnectedProxies :: ConnectedProxies where
  "NewConnectedProxies = \<lparr>ids = None\<rparr>"

definition ProxyIDs :: "ConnectedProxies \<Rightarrow> string_slice" where
  "ProxyIDs p = ids p"

text \<open>
  \<open>updateProxyIDs\<close> returns nothing in Go; the model returns the updated struct and a
  flag telling whether the call reached the \<open>go func() { select { case p.change <- ...;
  default: } }()\<close> statement, that is, whether it started the goroutine that tries the
  send on the change channel.
\<close>

definition updateProxyIDs :: "ConnectedProxies \<Rightarrow> string_slice \<Rightarrow> ConnectedProxies \<times> bool" where
  "updateProxyIDs p new_ids =
     (if cmp_Equal (ids p) new_ids then (p, False)
      else (p\<lparr>ids := new_ids\<rparr>, True))"

subsection \<open>Operation sequences on the store\<close>

text \<open>
  A caller of the store is a sequence of calls of its three mutating methods.
  \<open>run_ops\<close> performs them in order and collects what each call returned.
\<close>

datatype store_op = Add Agent_ptr | Remove Agent_ptr | Poplen int

datatype op_result = Added | Removed bool | Popped Agent_ptr bool

fun apply_op :: "agentStore \<Rightarrow> store_op \<Rightarrow> agentStore \<times> op_result" where
  "apply_op s (Add a) = (add s a, Added)"
| "apply_op s (Remove a) = (case remove s a of (s', found) \<Rightarrow> (s', Removed found))"
| "apply_op s (Poplen l) = (case poplen s l of (s', a, found) \<Rightarrow> (s', Popped a found))"

fun run_ops :: "agentStore \<Rightarrow> store_op list \<Rightarrow> agentStore \<times> op_result list" where
  "run_ops s [] = (s, [])"
| "run_ops s (op # ops) =
     (case apply_op s op of
        (s', r) \<Rightarrow> (case run_ops s' ops of (s'', rs) \<Rightarrow> (s'', r # rs)))"

fun is_eviction :: "store_op \<Rightarrow> bool" where
  "is_eviction (Poplen l) = True"
| "is_eviction _ = False"

definition no_evictions :: "store_op list \<Rightarrow> bool" where
  "no_evictions ops = (\<forall>op \<in> set ops. \<not> is_eviction op)"

fun is_add :: "store_op \<Rightarrow> bool" where
  "is_add (Add a) = True"
| "is_add _ = False"

text \<open>
  The insertion history of the store, kept beside it: every handle that is in the store
  is paired with the position, in the operation sequence, of the \<open>add\<close> call that put it
  there. \<open>stamped k t ops\<close> continues the history \<open>t\<close> through \<open>ops\<close>, the first of which
  is call number \<open>k\<close>. An \<open>add\<close> appends its own stamp; \<open>remove\<close> deletes the first entry
  that holds the handle; a pop that happens deletes the front entry.
\<close>

fun drop_first :: "Agent_ptr \<Rightarrow> (nat \<times> Agent_ptr) list \<Rightarrow> (nat \<times> Agent_ptr) list" where
  "drop_first a [] = []"
| "drop_first a (e # es) = (if snd e = a then es else e # drop_first a es)"

fun stamp_op :: "nat \<Rightarrow> (nat \<times> Agent_ptr) list \<Rightarrow> store_op \<Rightarrow> (nat \<times> Agent_ptr) list" where
  "stamp_op k t (Add a) = t @ [(k, a)]"
| "stamp_op k t (Remove a) = drop_first a t"
| "stamp_op k t (Poplen l) = (if 0 \<le> l \<and> l < int (length t) then drop 1 t else t)"

fun stamped :: "nat \<Rightarrow> (nat \<times> Agent_ptr) list \<Rightarrow> store_op list \<Rightarrow> (nat \<times> Agent_ptr) list" where
  "stamped k t [] = t"
| "stamped k t (op # ops) = stamped (Suc k) (stamp_op k t op) ops"

text \<open>
  The elements of a slice, for the reading of "structurally equal" that looks at the
  elements only: a nil slice has none.
\<close>

fun elems :: "string_slice \<Rightarrow> string list" where
  "elems None = []"
| "elems (Some xs) = xs"

text \<open>A sequence of \<open>updateProxyIDs\<close> calls; the flags are dropped.\<close>

fun publish_all :: "ConnectedProxies \<Rightarrow> string_slice list \<Rightarrow> ConnectedProxies" where
  "publish_all p [] = p"
| "publish_all p (x # xs) = publish_all (fst (updateProxyIDs p x)) xs"

section \<open>Properties\<close>

subsection \<open>Facts about the loops\<close>

declare Split.simps [simp del]
declare unsafeRemove_loop.simps [simp del]

lemma Index_None_iff: "Index s sep = None \<longleftrightarrow> sep \<notin> set s"
  by (induction s) auto

lemma Index_Some_take: "Index s sep = Some m \<Longrightarrow> take m s = takeWhile (\<lambda>c. c \<noteq> sep) s"
  by (induction s arbitrary: m) (auto split: if_splits)

lemma takeWhile_absent: "sep \<notin> set s \<Longrightarrow> takeWhile (\<lambda>c. c \<noteq> sep) s = s"
  by (induction s) auto

lemma Split_not_Nil: "Split s sep \<noteq> []"
  by (subst Split.simps) (simp split: option.split)

lemma Split_absent: "sep \<notin> set s \<Longrightarrow> Split s sep = [s]"
  using Index_None_iff [of s sep] by (subst Split.simps) simp

lemma Split_present:
  assumes "sep \<in> set s"
  shows "\<exists>rest. rest \<noteq> [] \<and> Split s sep = takeWhile (\<lambda>c. c \<noteq> sep) s # rest"
proof -
  from assms obtain m where m: "Index s sep = Some m"
    using Index_None_iff [of s sep] by (cases "Index s sep") auto
  have "Split s sep = take m s # Split (drop (m + 1) s) sep"
    by (subst Split.simps) (simp add: m)
  with m show ?thesis
    by (simp add: Index_Some_take Split_not_Nil)
qed

lemma getID_Cons:
  "getIDFromPrincipals (p # rest) = (takeWhile (\<lambda>c. c \<noteq> CHR ''.'') p, True)"
proof (cases "CHR ''.'' \<in> set p")
  case True
  then obtain more where "more \<noteq> []"
    and "Split p (CHR ''.'') = takeWhile (\<lambda>c. c \<noteq> CHR ''.'') p # more"
    using Split_present by blast
  then show ?thesis
    by (cases more) (simp_all add: getIDFromPrincipals_def)
next
  case False
  then show ?thesis
    by (simp add: getIDFromPrincipals_def Split_absent takeWhile_absent)
qed

lemma unsafeRemove_loop_eq:
  "i \<le> length ags \<Longrightarrow>
   unsafeRemove_loop ags agent i =
     (take i ags @ remove1 agent (drop i ags), agent \<in> set (drop i ags))"
proof (induction ags agent i rule: unsafeRemove_loop.induct)
  case (1 ags agent i)
  show ?case
  proof (cases "i < length ags")
    case False
    with "1.prems" show ?thesis
      by (subst unsafeRemove_loop.simps) simp
  next
    case inside: True
    then have split: "drop i ags = ags ! i # drop (Suc i) ags"
      by (simp add: Cons_nth_drop_Suc)
    show ?thesis
    proof (cases "ags ! i = agent")
      case True
      with inside split show ?thesis
        by (subst unsafeRemove_loop.simps) simp
    next
      case False
      with inside have "unsafeRemove_loop ags agent (Suc i) =
          (take (Suc i) ags @ remove1 agent (drop (Suc i) ags), agent \<in> set (drop (Suc i) ags))"
        using "1.IH" by simp
      with inside False split show ?thesis
        by (subst unsafeRemove_loop.simps) (auto simp: take_Suc_conv_app_nth)
    qed
  qed
qed

lemma remove_eq:
  "remove s agent = (s\<lparr>agents := remove1 agent (agents s)\<rparr>, agent \<in> set (agents s))"
  by (simp add: remove_def unsafeRemove_def unsafeRemove_loop_eq)

lemma remove1_first_match: "h \<notin> set before \<Longrightarrow> remove1 h (before @ h # after) = before @ after"
  by (induction before) auto

lemma count_list_remove1:
  "count_list (remove1 a xs) x = (if x = a then count_list xs x - 1 else count_list xs x)"
  by (induction xs) auto

lemma count_list_0_iff: "count_list xs x = 0 \<longleftrightarrow> x \<notin> set xs"
  by (induction xs) auto

lemma length_remove1_present: "a \<in> set xs \<Longrightarrow> Suc (length (remove1 a xs)) = length xs"
  by (induction xs) auto

subsection \<open>Facts about operation sequences\<close>

lemma fst_run_ops_Cons: "fst (run_ops s (op # ops)) = fst (run_ops (fst (apply_op s op)) ops)"
  by (simp split: prod.splits)

lemma snd_run_ops_Cons:
  "snd (run_ops s (op # ops)) = snd (apply_op s op) # snd (run_ops (fst (apply_op s op)) ops)"
  by (simp split: prod.splits)

lemma poplen_eq:
  "poplen s l =
     (if 0 \<le> l \<and> l < int (length (agents s))
      then (s\<lparr>agents := drop 1 (agents s)\<rparr>, hd (agents s), True)
      else (s, nil_Agent, False))"
  by (cases "agents s") (auto simp: poplen_def)

lemma map_snd_drop_first: "map snd (drop_first a t) = remove1 a (map snd t)"
  by (induction t) auto

lemma set_drop_first: "set (drop_first a t) \<subseteq> set t"
  by (induction t) auto

lemma sorted_drop_first:
  "sorted_wrt (<) (map fst t) \<Longrightarrow> sorted_wrt (<) (map fst (drop_first a t))"
proof (induction t)
  case Nil
  then show ?case by simp
next
  case (Cons e es)
  then show ?case
    using set_drop_first [of a es] by auto
qed

lemma stamp_op_refines:
  assumes "map snd t = agents s"
  shows "map snd (stamp_op k t op) = agents (fst (apply_op s op))"
proof -
  from assms have ags: "agents s = map snd t"
    by simp
  show ?thesis
    by (cases op) (simp_all add: ags add_def remove_eq poplen_eq map_snd_drop_first drop_map)
qed

lemma stamped_refines:
  "map snd t = agents s \<Longrightarrow> map snd (stamped k t ops) = agents (fst (run_ops s ops))"
proof (induction ops arbitrary: s t k)
  case Nil
  then show ?case by simp
next
  case (Cons op ops)
  from Cons.prems have "map snd (stamp_op k t op) = agents (fst (apply_op s op))"
    by (rule stamp_op_refines)
  then have "map snd (stamped (Suc k) (stamp_op k t op) ops) =
      agents (fst (run_ops (fst (apply_op s op)) ops))"
    by (rule Cons.IH)
  then show ?case
    by (simp only: stamped.simps fst_run_ops_Cons)
qed

lemma stamp_op_increasing:
  assumes "sorted_wrt (<) (map fst t)" and "\<forall>e \<in> set t. fst e < k"
  shows "sorted_wrt (<) (map fst (stamp_op k t op))
    \<and> (\<forall>e \<in> set (stamp_op k t op). fst e < Suc k)"
proof (cases op)
  case (Add a)
  with assms show ?thesis
    by (auto simp: sorted_wrt_append less_Suc_eq)
next
  case (Remove a)
  with assms show ?thesis
    using set_drop_first [of a t] by (auto simp: sorted_drop_first less_Suc_eq)
next
  case (Poplen l)
  from assms(1) have "sorted_wrt (<) (map fst (drop 1 t))"
    by (cases t) simp_all
  moreover have "set (drop 1 t) \<subseteq> set t"
    by (rule set_drop_subset)
  ultimately show ?thesis
    using assms Poplen by (auto simp: less_Suc_eq)
qed

lemma stamped_increasing:
  "sorted_wrt (<) (map fst t) \<Longrightarrow> \<forall>e \<in> set t. fst e < k \<Longrightarrow>
   sorted_wrt (<) (map fst (stamped k t ops))"
proof (induction ops arbitrary: t k)
  case Nil
  then show ?case by simp
next
  case (Cons op ops)
  from stamp_op_increasing [OF Cons.prems, of op] show ?case
    using Cons.IH [of "stamp_op k t op" "Suc k"] by simp
qed

lemma stamped_provenance:
  "\<forall>e \<in> set t. fst e < length pre \<and> pre ! fst e = Add (snd e) \<Longrightarrow>
   \<forall>e \<in> set (stamped (length pre) t ops).
     fst e < length (pre @ ops) \<and> (pre @ ops) ! fst e = Add (snd e)"
proof (induction ops arbitrary: t pre)
  case Nil
  then show ?case by simp
next
  case (Cons op ops)
  have "\<forall>e \<in> set (stamp_op (length pre) t op).
      fst e < length (pre @ [op]) \<and> (pre @ [op]) ! fst e = Add (snd e)"
  proof (cases op)
    case (Add a)
    with Cons.prems show ?thesis
      by (auto simp: nth_append)
  next
    case (Remove a)
    with Cons.prems show ?thesis
      using set_drop_first [of a t] by (auto simp: nth_append)
  next
    case (Poplen l)
    with Cons.prems show ?thesis
      using set_drop_subset [of 1 t] by (auto simp: nth_append)
  qed
  from Cons.IH [OF this] show ?case
    by simp
qed

lemma sorted_wrt_less_hd_least:
  "sorted_wrt (<) (map fst t) \<Longrightarrow> t \<noteq> [] \<Longrightarrow> \<forall>e \<in> set t. fst (hd t) \<le> fst (e :: nat \<times> 'a)"
  by (cases t) auto

lemma sorted_wrt_less_last_greatest:
  "sorted_wrt (<) (map fst t) \<Longrightarrow> t \<noteq> [] \<Longrightarrow> \<forall>e \<in> set t. fst (e :: nat \<times> 'a) \<le> fst (last t)"
proof (induction t)
  case Nil
  then show ?case by simp
next
  case (Cons e es)
  then show ?case
    by (cases es) (auto simp: less_imp_le)
qed

lemma len_balance:
  "no_evictions ops \<Longrightarrow>
   len (fst (run_ops s ops)) + count_list (snd (run_ops s ops)) (Removed True) =
     len s + length (filter is_add ops)"
proof (induction ops arbitrary: s)
  case Nil
  then show ?case by simp
next
  case (Cons op ops)
  from Cons.prems have rest: "no_evictions ops" and here: "\<not> is_eviction op"
    by (simp_all add: no_evictions_def)
  note IH = Cons.IH [OF rest, of "fst (apply_op s op)"]
  show ?case
  proof (cases op)
    case (Add a)
    with IH show ?thesis
      by (simp add: fst_run_ops_Cons snd_run_ops_Cons add_def len_def del: run_ops.simps)
  next
    case (Remove a)
    show ?thesis
    proof (cases "a \<in> set (agents s)")
      case True
      with IH Remove length_remove1_present [of a "agents s"] show ?thesis
        by (simp add: fst_run_ops_Cons snd_run_ops_Cons remove_eq len_def del: run_ops.simps)
    next
      case False
      with IH Remove show ?thesis
        by (simp add: fst_run_ops_Cons snd_run_ops_Cons remove_eq len_def remove1_idem
            del: run_ops.simps)
    qed
  next
    case (Poplen l)
    with here show ?thesis by simp
  qed
qed

subsection \<open>Principal identifier extraction\<close>

text \<open>
  C2. Extraction fails exactly on the empty principal list. On a non-empty list it
  succeeds with the first principal, cut before its first \<open>.\<close> when it has one and whole
  otherwise. The three scenarios of the specification are instances.
\<close>

theorem getIDFromPrincipals_first_principal:
  "getIDFromPrincipals [] = ('''', False)
   \<and> (\<not> snd (getIDFromPrincipals ps) \<longleftrightarrow> ps = [])
   \<and> getIDFromPrincipals (p # rest) =
       (if CHR ''.'' \<in> set p then takeWhile (\<lambda>c. c \<noteq> CHR ''.'') p else p, True)
   \<and> getIDFromPrincipals [''abc123.cluster-a'', ''other''] = (''abc123'', True)
   \<and> getIDFromPrincipals [''xyz''] = (''xyz'', True)"
proof -
  have empty: "getIDFromPrincipals [] = ('''', False)"
    by (simp add: getIDFromPrincipals_def)
  have fails: "\<not> snd (getIDFromPrincipals ps) \<longleftrightarrow> ps = []"
    by (cases ps) (simp_all add: empty getID_Cons)
  have whole: "takeWhile (\<lambda>c. c \<noteq> CHR ''.'') p = p" if "CHR ''.'' \<notin> set p"
    using that by (rule takeWhile_absent)
  have first: "getIDFromPrincipals (p # rest) =
       (if CHR ''.'' \<in> set p then takeWhile (\<lambda>c. c \<noteq> CHR ''.'') p else p, True)"
    by (simp add: getID_Cons whole)
  have ex1: "getIDFromPrincipals [''abc123.cluster-a'', ''other''] = (''abc123'', True)"
    by (simp add: getID_Cons)
  have ex2: "getIDFromPrincipals [''xyz''] = (''xyz'', True)"
    by (simp add: getID_Cons)
  from empty fails first ex1 ex2 show ?thesis
    by blast
qed

text \<open>
  C9. Extraction succeeds with the empty identifier whenever the first principal begins
  with \<open>.\<close>: the part before the first \<open>.\<close> is empty and nothing rejects it.
\<close>

theorem getIDFromPrincipals_leading_dot_empty_id:
  "getIDFromPrincipals ((CHR ''.'' # suffix) # rest) = ('''', True)
   \<and> getIDFromPrincipals [''.cluster-a''] = ('''', True)"
  by (simp add: getID_Cons)

subsection \<open>Removal from the store\<close>

text \<open>
  C5. \<open>remove(h)\<close> deletes the first element identical to \<open>h\<close>, keeps every other
  element in its place relative to the others, and returns true. When no element is
  identical to \<open>h\<close> (it was never added, or it is already gone) it returns false and
  leaves the store as it was; after removing a handle that occurred once, a second
  \<open>remove\<close> of it is such a call.
\<close>

theorem remove_first_match_keeps_order:
  "(agents s = before @ h # after \<and> h \<notin> set before \<longrightarrow>
      remove s h = (s\<lparr>agents := before @ after\<rparr>, True))
   \<and> (h \<notin> set (agents s) \<longrightarrow> remove s h = (s, False))
   \<and> (snd (remove s h) \<longleftrightarrow> h \<in> set (agents s))
   \<and> (distinct (agents s) \<longrightarrow>
        remove (fst (remove s h)) h = (fst (remove s h), False))"
proof -
  have hit: "remove s h = (s\<lparr>agents := before @ after\<rparr>, True)"
    if "agents s = before @ h # after" "h \<notin> set before"
    using that by (simp add: remove_eq remove1_first_match)
  have miss: "remove s h = (s, False)" if "h \<notin> set (agents s)"
    using that by (simp add: remove_eq remove1_idem)
  have flag: "snd (remove s h) \<longleftrightarrow> h \<in> set (agents s)"
    by (simp add: remove_eq)
  have again: "remove (fst (remove s h)) h = (fst (remove s h), False)"
    if "distinct (agents s)"
    using that by (simp add: remove_eq remove1_idem)
  from hit miss flag again show ?thesis
    by blast
qed

theorem remove_first_match_keeps_order_witness:
  "remove \<lparr>agents = [Agent_at 1, Agent_at 2, Agent_at 3, Agent_at 2]\<rparr> (Agent_at 2) =
     (\<lparr>agents = [Agent_at 1, Agent_at 3, Agent_at 2]\<rparr>, True)
   \<and> remove \<lparr>agents = [Agent_at 1, Agent_at 3]\<rparr> (Agent_at 2) =
     (\<lparr>agents = [Agent_at 1, Agent_at 3]\<rparr>, False)
   \<and> distinct (agents \<lparr>agents = [Agent_at 1, Agent_at 3]\<rparr>)"
  using remove_first_match_keeps_order
          [where s = "\<lparr>agents = [Agent_at 1, Agent_at 2, Agent_at 3, Agent_at 2]\<rparr>"
             and before = "[Agent_at 1]" and h = "Agent_at 2"
             and after = "[Agent_at 3, Agent_at 2]"]
        remove_first_match_keeps_order
          [where s = "\<lparr>agents = [Agent_at 1, Agent_at 3]\<rparr>" and before = "[]"
             and h = "Agent_at 2" and after = "[]"]
  by simp

text \<open>
  C10. One call of \<open>remove\<close> deletes one occurrence. A handle that occurs \<open>n + 1\<close>
  times occurs \<open>n\<close> times after a call, which returns true and shortens the store by
  one. So when \<open>h\<close> is added twice to a store that does not hold it (\<open>add\<close> does not
  deduplicate), the first \<open>remove(h)\<close> returns true and leaves exactly one \<open>h\<close>, and the
  second returns true and leaves none.
\<close>

theorem remove_sheds_one_occurrence_per_call:
  "(count_list (agents s) h = Suc n \<longrightarrow>
      snd (remove s h)
      \<and> count_list (agents (fst (remove s h))) h = n
      \<and> Suc (len (fst (remove s h))) = len s)
   \<and> (h \<notin> set (agents s) \<longrightarrow>
        count_list (agents (add (add s h) h)) h = 2
        \<and> snd (remove (add (add s h) h) h)
        \<and> count_list (agents (fst (remove (add (add s h) h) h))) h = 1
        \<and> snd (remove (fst (remove (add (add s h) h) h)) h)
        \<and> count_list (agents (fst (remove (fst (remove (add (add s h) h) h)) h))) h = 0
        \<and> fst (remove (fst (remove (add (add s h) h) h)) h) = s)"
proof -
  have one: "snd (remove s h) \<and> count_list (agents (fst (remove s h))) h = n
      \<and> Suc (len (fst (remove s h))) = len s"
    if "count_list (agents s) h = Suc n"
  proof -
    from that have "h \<in> set (agents s)"
      using count_list_0_iff [of "agents s" h] by simp
    with that show ?thesis
      by (simp add: remove_eq count_list_remove1 len_def length_remove1_present)
  qed
  have two: "count_list (agents (add (add s h) h)) h = 2
        \<and> snd (remove (add (add s h) h) h)
        \<and> count_list (agents (fst (remove (add (add s h) h) h))) h = 1
        \<and> snd (remove (fst (remove (add (add s h) h) h)) h)
        \<and> count_list (agents (fst (remove (fst (remove (add (add s h) h) h)) h))) h = 0
        \<and> fst (remove (fst (remove (add (add s h) h) h)) h) = s"
    if "h \<notin> set (agents s)"
  proof -
    from that have none: "count_list (agents s) h = 0"
      by (simp add: count_list_0_iff)
    from that have r1: "remove1 h (agents s @ [h, h]) = agents s @ [h]"
      using remove1_first_match [of h "agents s" "[h]"] by simp
    from that have r2: "remove1 h (agents s @ [h]) = agents s"
      using remove1_first_match [of h "agents s" "[]"] by simp
    from none r1 r2 show ?thesis
      by (simp add: remove_eq add_def)
  qed
  from one two show ?thesis
    by blast
qed

theorem remove_sheds_one_occurrence_per_call_witness:
  "count_list (agents \<lparr>agents = [Agent_at 7, Agent_at 5, Agent_at 7]\<rparr>) (Agent_at 7) = Suc 1
   \<and> remove \<lparr>agents = [Agent_at 7, Agent_at 5, Agent_at 7]\<rparr> (Agent_at 7) =
       (\<lparr>agents = [Agent_at 5, Agent_at 7]\<rparr>, True)
   \<and> Agent_at 7 \<notin> set (agents \<lparr>agents = [Agent_at 5]\<rparr>)
   \<and> agents (add (add \<lparr>agents = [Agent_at 5]\<rparr> (Agent_at 7)) (Agent_at 7)) =
       [Agent_at 5, Agent_at 7, Agent_at 7]
   \<and> fst (remove (fst (remove (add (add \<lparr>agents = [Agent_at 5]\<rparr> (Agent_at 7)) (Agent_at 7))
         (Agent_at 7))) (Agent_at 7)) = \<lparr>agents = [Agent_at 5]\<rparr>"
  using remove_sheds_one_occurrence_per_call
          [where s = "\<lparr>agents = [Agent_at 7, Agent_at 5, Agent_at 7]\<rparr>"
             and h = "Agent_at 7" and n = 1]
        remove_sheds_one_occurrence_per_call
          [where s = "\<lparr>agents = [Agent_at 5]\<rparr>" and h = "Agent_at 7" and n = 0]
  by (simp add: remove_eq add_def)

subsection \<open>Size, eviction and the newest handle\<close>

text \<open>
  C6. Run any sequence of \<open>add\<close> and \<open>remove\<close> calls on a store created empty: \<open>len()\<close>
  is then the number of \<open>add\<close> calls minus the number of \<open>remove\<close> calls that returned
  true.
\<close>

theorem len_is_adds_minus_successful_removes:
  "no_evictions ops \<Longrightarrow>
   int (len (fst (run_ops newAgentStore ops))) =
     int (length (filter is_add ops))
     - int (count_list (snd (run_ops newAgentStore ops)) (Removed True))"
  using len_balance [of ops newAgentStore]
  by (simp add: newAgentStore_def len_def)

theorem len_is_adds_minus_successful_removes_witness:
  "no_evictions [Add (Agent_at 1), Remove (Agent_at 2), Add (Agent_at 2), Remove (Agent_at 1)]
   \<and> len (fst (run_ops newAgentStore
        [Add (Agent_at 1), Remove (Agent_at 2), Add (Agent_at 2), Remove (Agent_at 1)])) = 1
   \<and> snd (run_ops newAgentStore
        [Add (Agent_at 1), Remove (Agent_at 2), Add (Agent_at 2), Remove (Agent_at 1)]) =
       [Added, Removed False, Added, Removed True]"
  using len_is_adds_minus_successful_removes
          [of "[Add (Agent_at 1), Remove (Agent_at 2), Add (Agent_at 2), Remove (Agent_at 1)]"]
  by (simp add: no_evictions_def newAgentStore_def add_def remove_eq)

text \<open>
  C7. \<open>last()\<close> reports not-found exactly when the store is empty; otherwise it returns
  the element at the end of the slice, and the store is not touched (the function has no
  store result). After any sequence of \<open>add\<close> and \<open>remove\<close> calls on a store created
  empty, that element is the most recently added handle still in the store: the
  insertion history lists the store's handles in order, each with the index of the
  \<open>add\<close> call that inserted it, with increasing indexes, and the handle that \<open>last()\<close>
  returns carries the greatest index of the history.
\<close>

theorem last_agent_is_newest_survivor:
  "(\<not> snd (last_agent s) \<longleftrightarrow> agents s = [])
   \<and> (agents s = [] \<longrightarrow> last_agent s = (nil_Agent, False))
   \<and> (agents s \<noteq> [] \<longrightarrow> last_agent s = (last (agents s), True))
   \<and> (no_evictions ops \<longrightarrow>
        map snd (stamped 0 [] ops) = agents (fst (run_ops newAgentStore ops))
        \<and> (\<forall>e \<in> set (stamped 0 [] ops). fst e < length ops \<and> ops ! fst e = Add (snd e))
        \<and> sorted_wrt (<) (map fst (stamped 0 [] ops))
        \<and> (stamped 0 [] ops \<noteq> [] \<longrightarrow>
             last_agent (fst (run_ops newAgentStore ops)) = (snd (last (stamped 0 [] ops)), True)
             \<and> (\<forall>e \<in> set (stamped 0 [] ops). fst e \<le> fst (last (stamped 0 [] ops)))))"
proof -
  have peek: "last_agent s = (if agents s = [] then (nil_Agent, False) else (last (agents s), True))"
    for s
    by (simp add: last_agent_def last_conv_nth)
  have content: "map snd (stamped 0 [] ops) = agents (fst (run_ops newAgentStore ops))"
    by (rule stamped_refines) (simp add: newAgentStore_def)
  have origin: "\<forall>e \<in> set (stamped 0 [] ops). fst e < length ops \<and> ops ! fst e = Add (snd e)"
    using stamped_provenance [of "[]" "[]" ops] by simp
  have order: "sorted_wrt (<) (map fst (stamped 0 [] ops))"
    by (rule stamped_increasing) simp_all
  have newest: "last_agent (fst (run_ops newAgentStore ops)) = (snd (last (stamped 0 [] ops)), True)
      \<and> (\<forall>e \<in> set (stamped 0 [] ops). fst e \<le> fst (last (stamped 0 [] ops)))"
    if some: "stamped 0 [] ops \<noteq> []"
  proof -
    from some content have "agents (fst (run_ops newAgentStore ops)) \<noteq> []"
      by (metis map_is_Nil_conv)
    with some have "last_agent (fst (run_ops newAgentStore ops)) =
        (snd (last (stamped 0 [] ops)), True)"
      by (simp add: peek content [symmetric] last_map)
    with sorted_wrt_less_last_greatest [OF order some] show ?thesis
      by simp
  qed
  from peek [of s] content origin order newest show ?thesis
    by simp
qed

theorem last_agent_is_newest_survivor_witness:
  "no_evictions [Add (Agent_at 1), Add (Agent_at 2), Add (Agent_at 3), Remove (Agent_at 3)]
   \<and> stamped 0 [] [Add (Agent_at 1), Add (Agent_at 2), Add (Agent_at 3), Remove (Agent_at 3)] =
       [(0, Agent_at 1), (1, Agent_at 2)]
   \<and> last_agent (fst (run_ops newAgentStore
        [Add (Agent_at 1), Add (Agent_at 2), Add (Agent_at 3), Remove (Agent_at 3)])) =
       (Agent_at 2, True)
   \<and> agents \<lparr>agents = []\<rparr> = [] \<and> last_agent \<lparr>agents = []\<rparr> = (nil_Agent, False)
   \<and> agents \<lparr>agents = [Agent_at 4, Agent_at 5]\<rparr> \<noteq> []
   \<and> last_agent \<lparr>agents = [Agent_at 4, Agent_at 5]\<rparr> = (Agent_at 5, True)"
  using last_agent_is_newest_survivor
          [where s = "\<lparr>agents = []\<rparr>"
             and ops = "[Add (Agent_at 1), Add (Agent_at 2), Add (Agent_at 3), Remove (Agent_at 3)]"]
        last_agent_is_newest_survivor
          [where s = "\<lparr>agents = [Agent_at 4, Agent_at 5]\<rparr>" and ops = "[]"]
  by (simp add: no_evictions_def)

text \<open>
  C1, as the code has it. \<open>poplen(l)\<close> returns a handle exactly when \<open>l\<close> is not
  negative and the store holds more than \<open>l\<close> handles. So a threshold of zero pops from
  every non-empty store, a negative threshold never pops, and an empty store never
  pops. A call that does not pop returns \<open>nil\<close> and leaves the store as it was. A call
  that pops returns the front element and leaves the rest, one handle fewer; in a store
  reached from the empty one by any calls of \<open>add\<close>, \<open>remove\<close> and \<open>poplen\<close>, the front
  element is the handle with the least insertion index of those present.
\<close>

theorem poplen_pops_oldest_iff_over_threshold:
  "(snd (snd (poplen s l)) \<longleftrightarrow> 0 \<le> l \<and> l < int (len s))
   \<and> (agents s \<noteq> [] \<longrightarrow> snd (snd (poplen s 0)))
   \<and> (l < 0 \<longrightarrow> poplen s l = (s, nil_Agent, False))
   \<and> (agents s = [] \<longrightarrow> poplen s l = (s, nil_Agent, False))
   \<and> (\<not> snd (snd (poplen s l)) \<longrightarrow> poplen s l = (s, nil_Agent, False))
   \<and> (snd (snd (poplen s l)) \<longrightarrow>
        agents s = fst (snd (poplen s l)) # agents (fst (poplen s l))
        \<and> Suc (len (fst (poplen s l))) = len s)
   \<and> map snd (stamped 0 [] ops) = agents (fst (run_ops newAgentStore ops))
   \<and> (\<forall>e \<in> set (stamped 0 [] ops). fst e < length ops \<and> ops ! fst e = Add (snd e))
   \<and> (snd (snd (poplen (fst (run_ops newAgentStore ops)) l)) \<longrightarrow>
        stamped 0 [] ops \<noteq> []
        \<and> fst (snd (poplen (fst (run_ops newAgentStore ops)) l)) = snd (hd (stamped 0 [] ops))
        \<and> (\<forall>e \<in> set (stamped 0 [] ops). fst (hd (stamped 0 [] ops)) \<le> fst e))"
proof -
  have flag: "snd (snd (poplen s l)) \<longleftrightarrow> 0 \<le> l \<and> l < int (len s)"
    by (simp add: poplen_eq len_def)
  have zero: "snd (snd (poplen s 0))" if "agents s \<noteq> []"
    using that by (simp add: poplen_eq)
  have negative: "poplen s l = (s, nil_Agent, False)" if "l < 0"
    using that by (simp add: poplen_eq)
  have empty: "poplen s l = (s, nil_Agent, False)" if "agents s = []"
    using that by (simp add: poplen_eq)
  have stay: "poplen s l = (s, nil_Agent, False)" if "\<not> snd (snd (poplen s l))"
    using that by (simp add: poplen_eq split: if_splits)
  have popped: "agents s = fst (snd (poplen s l)) # agents (fst (poplen s l))
      \<and> Suc (len (fst (poplen s l))) = len s"
    if "snd (snd (poplen s l))"
    using that by (cases "agents s") (simp_all add: poplen_eq len_def split: if_splits)
  have content: "map snd (stamped 0 [] ops) = agents (fst (run_ops newAgentStore ops))"
    by (rule stamped_refines) (simp add: newAgentStore_def)
  have origin: "\<forall>e \<in> set (stamped 0 [] ops). fst e < length ops \<and> ops ! fst e = Add (snd e)"
    using stamped_provenance [of "[]" "[]" ops] by simp
  have order: "sorted_wrt (<) (map fst (stamped 0 [] ops))"
    by (rule stamped_increasing) simp_all
  have oldest: "stamped 0 [] ops \<noteq> []
      \<and> fst (snd (poplen (fst (run_ops newAgentStore ops)) l)) = snd (hd (stamped 0 [] ops))
      \<and> (\<forall>e \<in> set (stamped 0 [] ops). fst (hd (stamped 0 [] ops)) \<le> fst e)"
    if pop: "snd (snd (poplen (fst (run_ops newAgentStore ops)) l))"
  proof -
    from pop have "agents (fst (run_ops newAgentStore ops)) \<noteq> []"
      by (auto simp: poplen_eq split: if_splits)
    with content have some: "stamped 0 [] ops \<noteq> []"
      by (metis map_is_Nil_conv)
    from pop some have "fst (snd (poplen (fst (run_ops newAgentStore ops)) l)) =
        snd (hd (stamped 0 [] ops))"
      by (simp add: poplen_eq content [symmetric] hd_map split: if_splits)
    with some sorted_wrt_less_hd_least [OF order some] show ?thesis
      by simp
  qed
  show ?thesis
  proof (intro conjI)
    show "snd (snd (poplen s l)) \<longleftrightarrow> 0 \<le> l \<and> l < int (len s)"
      by (rule flag)
    show "agents s \<noteq> [] \<longrightarrow> snd (snd (poplen s 0))"
      using zero by (rule impI)
    show "l < 0 \<longrightarrow> poplen s l = (s, nil_Agent, False)"
      using negative by (rule impI)
    show "agents s = [] \<longrightarrow> poplen s l = (s, nil_Agent, False)"
      using empty by (rule impI)
    show "\<not> snd (snd (poplen s l)) \<longrightarrow> poplen s l = (s, nil_Agent, False)"
      using stay by (rule impI)
    show "snd (snd (poplen s l)) \<longrightarrow>
        agents s = fst (snd (poplen s l)) # agents (fst (poplen s l))
        \<and> Suc (len (fst (poplen s l))) = len s"
      using popped by (rule impI)
    show "map snd (stamped 0 [] ops) = agents (fst (run_ops newAgentStore ops))"
      by (rule content)
    show "\<forall>e \<in> set (stamped 0 [] ops). fst e < length ops \<and> ops ! fst e = Add (snd e)"
      by (rule origin)
    show "snd (snd (poplen (fst (run_ops newAgentStore ops)) l)) \<longrightarrow>
        stamped 0 [] ops \<noteq> []
        \<and> fst (snd (poplen (fst (run_ops newAgentStore ops)) l)) = snd (hd (stamped 0 [] ops))
        \<and> (\<forall>e \<in> set (stamped 0 [] ops). fst (hd (stamped 0 [] ops)) \<le> fst e)"
      using oldest by (rule impI)
  qed
qed

theorem poplen_pops_oldest_iff_over_threshold_witness:
  "agents \<lparr>agents = [Agent_at 1, Agent_at 2]\<rparr> \<noteq> []
   \<and> snd (snd (poplen \<lparr>agents = [Agent_at 1, Agent_at 2]\<rparr> 0))
   \<and> (-1 :: int) < 0
   \<and> poplen \<lparr>agents = [Agent_at 1, Agent_at 2]\<rparr> (-1) =
       (\<lparr>agents = [Agent_at 1, Agent_at 2]\<rparr>, nil_Agent, False)
   \<and> agents \<lparr>agents = []\<rparr> = []
   \<and> poplen \<lparr>agents = []\<rparr> 5 = (\<lparr>agents = []\<rparr>, nil_Agent, False)
   \<and> \<not> snd (snd (poplen \<lparr>agents = [Agent_at 1, Agent_at 2]\<rparr> 2))
   \<and> poplen \<lparr>agents = [Agent_at 1, Agent_at 2]\<rparr> 2 =
       (\<lparr>agents = [Agent_at 1, Agent_at 2]\<rparr>, nil_Agent, False)
   \<and> snd (snd (poplen \<lparr>agents = [Agent_at 1, Agent_at 2]\<rparr> 1))
   \<and> Suc (len (fst (poplen \<lparr>agents = [Agent_at 1, Agent_at 2]\<rparr> 1))) =
       len \<lparr>agents = [Agent_at 1, Agent_at 2]\<rparr>
   \<and> snd (snd (poplen (fst (run_ops newAgentStore
        [Add (Agent_at 1), Add (Agent_at 2), Poplen 1, Add (Agent_at 3)])) 1))
   \<and> fst (snd (poplen (fst (run_ops newAgentStore
        [Add (Agent_at 1), Add (Agent_at 2), Poplen 1, Add (Agent_at 3)])) 1)) =
       snd (hd (stamped 0 [] [Add (Agent_at 1), Add (Agent_at 2), Poplen 1, Add (Agent_at 3)]))"
proof -
  have some: "agents \<lparr>agents = [Agent_at 1, Agent_at 2]\<rparr> \<noteq> []"
    by simp
  have neg: "(-1 :: int) < 0"
    by simp
  have none: "agents \<lparr>agents = []\<rparr> = []"
    by simp
  have full: "\<not> snd (snd (poplen \<lparr>agents = [Agent_at 1, Agent_at 2]\<rparr> 2))"
    by (simp add: poplen_def)
  have over: "snd (snd (poplen \<lparr>agents = [Agent_at 1, Agent_at 2]\<rparr> 1))"
    by (simp add: poplen_def)
  have run: "fst (run_ops newAgentStore
      [Add (Agent_at 1), Add (Agent_at 2), Poplen 1, Add (Agent_at 3)]) =
      \<lparr>agents = [Agent_at 2, Agent_at 3]\<rparr>"
    by (simp add: newAgentStore_def add_def poplen_eq)
  have pops: "snd (snd (poplen (fst (run_ops newAgentStore
      [Add (Agent_at 1), Add (Agent_at 2), Poplen 1, Add (Agent_at 3)])) 1))"
    unfolding run by (simp add: poplen_eq)
  from some have "snd (snd (poplen \<lparr>agents = [Agent_at 1, Agent_at 2]\<rparr> 0))"
    using poplen_pops_oldest_iff_over_threshold
            [where s = "\<lparr>agents = [Agent_at 1, Agent_at 2]\<rparr>" and l = 0 and ops = "[]"]
    by blast
  moreover from neg have "poplen \<lparr>agents = [Agent_at 1, Agent_at 2]\<rparr> (-1) =
      (\<lparr>agents = [Agent_at 1, Agent_at 2]\<rparr>, nil_Agent, False)"
    using poplen_pops_oldest_iff_over_threshold
            [where s = "\<lparr>agents = [Agent_at 1, Agent_at 2]\<rparr>" and l = "-1" and ops = "[]"]
    by blast
  moreover from none have "poplen \<lparr>agents = []\<rparr> 5 = (\<lparr>agents = []\<rparr>, nil_Agent, False)"
    using poplen_pops_oldest_iff_over_threshold
            [where s = "\<lparr>agents = []\<rparr>" and l = 5 and ops = "[]"]
    by blast
  moreover from full have "poplen \<lparr>agents = [Agent_at 1, Agent_at 2]\<rparr> 2 =
      (\<lparr>agents = [Agent_at 1, Agent_at 2]\<rparr>, nil_Agent, False)"
    using poplen_pops_oldest_iff_over_threshold
            [where s = "\<lparr>agents = [Agent_at 1, Agent_at 2]\<rparr>" and l = 2 and ops = "[]"]
    by blast
  moreover from over have "Suc (len (fst (poplen \<lparr>agents = [Agent_at 1, Agent_at 2]\<rparr> 1))) =
      len \<lparr>agents = [Agent_at 1, Agent_at 2]\<rparr>"
    using poplen_pops_oldest_iff_over_threshold
            [where s = "\<lparr>agents = [Agent_at 1, Agent_at 2]\<rparr>" and l = 1 and ops = "[]"]
    by blast
  moreover from pops have "fst (snd (poplen (fst (run_ops newAgentStore
        [Add (Agent_at 1), Add (Agent_at 2), Poplen 1, Add (Agent_at 3)])) 1)) =
       snd (hd (stamped 0 [] [Add (Agent_at 1), Add (Agent_at 2), Poplen 1, Add (Agent_at 3)]))"
    using poplen_pops_oldest_iff_over_threshold
            [where s = "\<lparr>agents = []\<rparr>" and l = 1
               and ops = "[Add (Agent_at 1), Add (Agent_at 2), Poplen 1, Add (Agent_at 3)]"]
    by blast
  ultimately show ?thesis
    using some neg none full over pops by blast
qed

text \<open>
  C1, as the claim has it, fails at a negative threshold: a store of one handle holds
  more than \<open>-1\<close> handles, and \<open>poplen(-1)\<close> returns not-found and removes nothing.
\<close>

theorem poplen_negative_threshold_counterexample:
  "agents \<lparr>agents = [Agent_at 1]\<rparr> \<noteq> []
   \<and> int (len \<lparr>agents = [Agent_at 1]\<rparr>) > -1
   \<and> poplen \<lparr>agents = [Agent_at 1]\<rparr> (-1) = (\<lparr>agents = [Agent_at 1]\<rparr>, nil_Agent, False)"
  by (simp add: poplen_def len_def)

subsection \<open>The connected-proxy tracker\<close>

text \<open>
  C3, as the code has it. \<open>updateProxyIDs\<close> does nothing, and starts no notifier, exactly
  when the new slice is equal to the stored one in the sense of \<open>cmp.Equal\<close>: both nil,
  or both non-nil with the same elements in the same order. Publishing the same slice
  twice in a row can start the notifier in the first call only; the second call changes
  nothing.
\<close>

theorem updateProxyIDs_idempotent_under_cmp_Equal:
  "(cmp_Equal (ids p) new_ids \<longleftrightarrow>
      (ids p = None \<longleftrightarrow> new_ids = None) \<and> elems (ids p) = elems new_ids)
   \<and> (cmp_Equal (ids p) new_ids \<longrightarrow> updateProxyIDs p new_ids = (p, False))
   \<and> (\<not> cmp_Equal (ids p) new_ids \<longrightarrow>
        updateProxyIDs p new_ids = (p\<lparr>ids := new_ids\<rparr>, True))
   \<and> updateProxyIDs (fst (updateProxyIDs p new_ids)) new_ids =
       (fst (updateProxyIDs p new_ids), False)"
proof -
  have same: "cmp_Equal x x" for x
    by (cases x) simp_all
  have eq: "cmp_Equal (ids p) new_ids \<longleftrightarrow>
      (ids p = None \<longleftrightarrow> new_ids = None) \<and> elems (ids p) = elems new_ids"
    by (cases "ids p"; cases new_ids) simp_all
  have noop: "updateProxyIDs p new_ids = (p, False)" if "cmp_Equal (ids p) new_ids"
    using that by (simp add: updateProxyIDs_def)
  have change: "updateProxyIDs p new_ids = (p\<lparr>ids := new_ids\<rparr>, True)"
    if "\<not> cmp_Equal (ids p) new_ids"
    using that by (simp add: updateProxyIDs_def)
  have twice: "updateProxyIDs (fst (updateProxyIDs p new_ids)) new_ids =
       (fst (updateProxyIDs p new_ids), False)"
    by (simp add: updateProxyIDs_def same)
  from eq noop change twice show ?thesis
    by blast
qed

theorem updateProxyIDs_idempotent_under_cmp_Equal_witness:
  "cmp_Equal (ids \<lparr>ids = Some [''p1'', ''p2'']\<rparr>) (Some [''p1'', ''p2''])
   \<and> updateProxyIDs \<lparr>ids = Some [''p1'', ''p2'']\<rparr> (Some [''p1'', ''p2'']) =
       (\<lparr>ids = Some [''p1'', ''p2'']\<rparr>, False)
   \<and> \<not> cmp_Equal (ids \<lparr>ids = Some [''p1'', ''p2'']\<rparr>) (Some [''p2'', ''p1''])
   \<and> updateProxyIDs \<lparr>ids = Some [''p1'', ''p2'']\<rparr> (Some [''p2'', ''p1'']) =
       (\<lparr>ids = Some [''p2'', ''p1'']\<rparr>, True)"
  using updateProxyIDs_idempotent_under_cmp_Equal
          [where p = "\<lparr>ids = Some [''p1'', ''p2'']\<rparr>" and new_ids = "Some [''p1'', ''p2'']"]
        updateProxyIDs_idempotent_under_cmp_Equal
          [where p = "\<lparr>ids = Some [''p1'', ''p2'']\<rparr>" and new_ids = "Some [''p2'', ''p1'']"]
  by simp

text \<open>
  C3, as the claim has it, fails. A fresh tracker stores the nil slice. Publishing the
  empty non-nil slice, which has the same elements (none), is not a no-op: the stored
  slice is replaced and the notifier is started.
\<close>

theorem updateProxyIDs_nil_versus_empty_counterexample:
  "elems (ProxyIDs NewConnectedProxies) = elems (Some [])
   \<and> updateProxyIDs NewConnectedProxies (Some []) = (\<lparr>ids = Some []\<rparr>, True)
   \<and> fst (updateProxyIDs NewConnectedProxies (Some [])) \<noteq> NewConnectedProxies"
  by (simp add: NewConnectedProxies_def ProxyIDs_def updateProxyIDs_def)

text \<open>
  C4. After any non-empty sequence of \<open>updateProxyIDs\<close> calls, from any tracker state,
  \<open>ProxyIDs()\<close> is the argument of the last call. In particular after publishing \<open>A\<close>,
  then \<open>B\<close>, then \<open>C\<close>, pairwise different, it is \<open>C\<close> and neither \<open>A\<close> nor \<open>B\<close>.
\<close>

theorem ProxyIDs_is_latest_publish:
  "(pubs \<noteq> [] \<longrightarrow> ProxyIDs (publish_all p pubs) = last pubs)
   \<and> (A \<noteq> B \<and> B \<noteq> C \<and> A \<noteq> C \<longrightarrow>
        ProxyIDs (publish_all p [A, B, C]) = C
        \<and> ProxyIDs (publish_all p [A, B, C]) \<noteq> A
        \<and> ProxyIDs (publish_all p [A, B, C]) \<noteq> B)"
proof -
  have step: "ids (fst (updateProxyIDs q x)) = x" for q x
    by (cases "ids q"; cases x) (simp_all add: updateProxyIDs_def)
  have latest: "qs \<noteq> [] \<Longrightarrow> ProxyIDs (publish_all q qs) = last qs" for q qs
  proof (induction qs arbitrary: q)
    case Nil
    then show ?case by simp
  next
    case (Cons x xs)
    show ?case
    proof (cases xs)
      case Nil
      then show ?thesis
        by (simp add: ProxyIDs_def step)
    next
      case (Cons y ys)
      then show ?thesis
        using Cons.IH [of "fst (updateProxyIDs q x)"] by simp
    qed
  qed
  have three: "ProxyIDs (publish_all p [A, B, C]) = C"
    using latest [of "[A, B, C]" p] by simp
  from latest three show ?thesis
    by metis
qed

theorem ProxyIDs_is_latest_publish_witness:
  "[Some [''a''], Some [''b''], Some [''a'', ''b'']] \<noteq> []
   \<and> Some [''a''] \<noteq> Some [''b''] \<and> Some [''b''] \<noteq> Some [''a'', ''b'']
   \<and> Some [''a''] \<noteq> Some [''a'', ''b'']
   \<and> ProxyIDs (publish_all NewConnectedProxies [Some [''a''], Some [''b''], Some [''a'', ''b'']])
       = Some [''a'', ''b'']"
  using ProxyIDs_is_latest_publish
          [where pubs = "[Some [''a''], Some [''b''], Some [''a'', ''b'']]"
             and p = NewConnectedProxies
             and A = "Some [''a'']" and B = "Some [''b'']" and C = "Some [''a'', ''b'']"]
  by simp

end
